theory Spec2Isabelle
  imports Main "HOL-Library.Word"
begin

section \<open>Data model of TextTools.h\<close>

text \<open>
  A \<open>char\<close> is one byte; every table access in the source goes through
  \<open>static_cast<unsigned char>\<close>, which is \<open>unat\<close> here.  A \<open>std::string\<close> is the list
  of its bytes, a \<open>LookupTable\<close> (\<open>std::array<char, 256>\<close>) the list of its 256 entries.
  The two \<open>std::unordered_map\<close>s are association lists, in the order in which the
  range-based \<open>for\<close> visits the entries; the keys of an \<open>unordered_map\<close> are unique,
  which is the predicate \<open>unique_keys\<close>.
\<close>

type_synonym byte = "8 word"
type_synonym text_buffer = "byte list"
type_synonym LookupTable = "byte list"
type_synonym CharModMap = "(byte \<times> byte option) list"
type_synonym ReplacementMap = "(byte \<times> byte) list"

definition unique_keys :: "(byte \<times> 'v) list \<Rightarrow> bool" where
  "unique_keys m = distinct (map fst m)"

definition REMOVAL_SENTINEL :: byte where
  "REMOVAL_SENTINEL = 0"

text \<open>\<open>std::string::resize(n)\<close>: cut to \<open>n\<close> bytes, or pad with \<open>'\0'\<close> up to \<open>n\<close>.\<close>

definition resize :: "text_buffer \<Rightarrow> nat \<Rightarrow> text_buffer" where
  "resize text n = take n text @ replicate (n - length text) 0"

section \<open>Table builders\<close>

text \<open>The loop \<open>for (int i = 0; i < 256; ++i) table[i] = static_cast<char>(i)\<close>.\<close>

function identity_loop :: "LookupTable \<Rightarrow> nat \<Rightarrow> LookupTable" where
  "identity_loop table i =
     (if i < 256 then identity_loop (table[i := of_nat i]) (i + 1) else table)"
  by pat_completeness auto
termination
  by (relation "measure (\<lambda>(table, i). 256 - i)") auto

definition prepare_identity_table :: LookupTable where
  "prepare_identity_table = identity_loop (replicate 256 0) 0"

text \<open>The body of the loop over the rules of \<open>create_table_checked\<close>, and the loop.\<close>

definition apply_rule :: "byte \<times> byte option \<Rightarrow> LookupTable \<Rightarrow> LookupTable" where
  "apply_rule rule lookup_table =
     (case rule of (char_to_modify, action) \<Rightarrow>
        (case action of
           Some v \<Rightarrow> lookup_table[unat char_to_modify := v]
         | None \<Rightarrow> lookup_table[unat char_to_modify := REMOVAL_SENTINEL]))"

primrec apply_rules :: "CharModMap \<Rightarrow> LookupTable \<Rightarrow> LookupTable" where
  "apply_rules [] lookup_table = lookup_table"
| "apply_rules (rule # rules) lookup_table = apply_rules rules (apply_rule rule lookup_table)"

definition create_table_checked :: "CharModMap \<Rightarrow> LookupTable \<times> bool" where
  "create_table_checked rules =
     (let lookup_table = prepare_identity_table in
      if rules = [] then (lookup_table, True)
      else (apply_rules rules lookup_table, False))"

primrec apply_replacements :: "ReplacementMap \<Rightarrow> LookupTable \<Rightarrow> LookupTable" where
  "apply_replacements [] replacement_map = replacement_map"
| "apply_replacements (entry # replacements) replacement_map =
     apply_replacements replacements (replacement_map[unat (fst entry) := snd entry])"

definition create_replacement_table :: "ReplacementMap \<Rightarrow> LookupTable" where
  "create_replacement_table replacements =
     apply_replacements replacements prepare_identity_table"

section \<open>Scan engines\<close>

text \<open>
  The scan of \<open>replace_and_remove\<close> works in place: \<open>read_ptr\<close> and \<open>write_ptr\<close> are
  offsets into the one buffer, and the loop returns the buffer with the final
  \<open>write_ptr\<close>.
\<close>

function rr_loop :: "LookupTable \<Rightarrow> text_buffer \<Rightarrow> nat \<Rightarrow> nat \<Rightarrow> text_buffer \<times> nat" where
  "rr_loop lookup_table text read_ptr write_ptr =
     (if read_ptr < length text then
        (let replacement = lookup_table ! unat (text ! read_ptr) in
         if replacement \<noteq> REMOVAL_SENTINEL
         then rr_loop lookup_table (text[write_ptr := replacement]) (read_ptr + 1) (write_ptr + 1)
         else rr_loop lookup_table text (read_ptr + 1) write_ptr)
      else (text, write_ptr))"
  by pat_completeness auto
termination
  by (relation "measure (\<lambda>(lookup_table, text, read_ptr, write_ptr). length text - read_ptr)") auto

definition replace_and_remove :: "text_buffer \<Rightarrow> LookupTable \<Rightarrow> bool \<Rightarrow> text_buffer" where
  "replace_and_remove text lookup_table is_identity =
     (if text = [] \<or> is_identity then text
      else (case rr_loop lookup_table text 0 0 of
              (text', write_ptr) \<Rightarrow> resize text' write_ptr))"

text \<open>The range-based loop \<open>for (char& c : input_text) c = replacement_map[...]\<close>.\<close>

function rc_loop :: "LookupTable \<Rightarrow> text_buffer \<Rightarrow> nat \<Rightarrow> text_buffer" where
  "rc_loop replacement_map input_text i =
     (if i < length input_text
      then rc_loop replacement_map
             (input_text[i := replacement_map ! unat (input_text ! i)]) (i + 1)
      else input_text)"
  by pat_completeness auto
termination
  by (relation "measure (\<lambda>(replacement_map, input_text, i). length input_text - i)") auto

definition replace_chars :: "text_buffer \<Rightarrow> LookupTable \<Rightarrow> text_buffer" where
  "replace_chars input_text replacement_map =
     (if input_text = [] then input_text else rc_loop replacement_map input_text 0)"

section \<open>Public functions and classes\<close>

definition ascii_char_replace_remove_once :: "text_buffer \<Rightarrow> CharModMap \<Rightarrow> text_buffer" where
  "ascii_char_replace_remove_once text rules =
     (case create_table_checked rules of
        (lookup_table, is_identity) \<Rightarrow> replace_and_remove text lookup_table is_identity)"

record ReusableASCIICharEditor =
  m_lookup_table :: LookupTable
  m_is_identity :: bool

definition new_ReusableASCIICharEditor :: "CharModMap \<Rightarrow> ReusableASCIICharEditor" where
  "new_ReusableASCIICharEditor rules =
     (let result = create_table_checked rules in
      \<lparr>m_lookup_table = fst result, m_is_identity = snd result\<rparr>)"

definition editor_apply :: "ReusableASCIICharEditor \<Rightarrow> text_buffer \<Rightarrow> text_buffer" where
  "editor_apply this text = replace_and_remove text (m_lookup_table this) (m_is_identity this)"

definition ascii_replace_once :: "text_buffer \<Rightarrow> ReplacementMap \<Rightarrow> text_buffer" where
  "ascii_replace_once text replacements =
     (if replacements = [] then text
      else (let replacement_table = create_replacement_table replacements in
            replace_chars text replacement_table))"

record ReusableCharReplacer =
  m_is_empty :: bool
  m_replacement_table :: LookupTable

definition new_ReusableCharReplacer :: "ReplacementMap \<Rightarrow> ReusableCharReplacer" where
  "new_ReusableCharReplacer replacements =
     \<lparr>m_is_empty = (replacements = []),
      m_replacement_table = create_replacement_table replacements\<rparr>"

definition replacer_apply :: "ReusableCharReplacer \<Rightarrow> text_buffer \<Rightarrow> text_buffer" where
  "replacer_apply this text =
     (if m_is_empty this then text else replace_chars text (m_replacement_table this))"

section \<open>Trimming\<close>

text \<open>
  \<open>IS_TRIMMABLE\<close> is a table of 256 flags, all false but the seven that
  \<open>make_trimmable_lookup\<close> sets: space, tab, newline, carriage return, form feed,
  vertical tab and the backtick.
\<close>

definition make_trimmable_lookup :: "bool list" where
  "make_trimmable_lookup =
     (replicate 256 False)
       [0x20 := True, 0x09 := True, 0x0A := True, 0x0D := True,
        0x0C := True, 0x0B := True, 0x60 := True]"

definition IS_TRIMMABLE :: "byte \<Rightarrow> bool" where
  "IS_TRIMMABLE c = make_trimmable_lookup ! unat c"

function find_first :: "text_buffer \<Rightarrow> nat \<Rightarrow> nat" where
  "find_first text first =
     (if first < length text \<and> IS_TRIMMABLE (text ! first)
      then find_first text (first + 1) else first)"
  by pat_completeness auto
termination
  by (relation "measure (\<lambda>(text, first). length text - first)") auto

function find_last :: "text_buffer \<Rightarrow> nat \<Rightarrow> nat \<Rightarrow> nat" where
  "find_last text first last_p =
     (if last_p > first \<and> IS_TRIMMABLE (text ! (last_p - 1))
      then find_last text first (last_p - 1) else last_p)"
  by pat_completeness auto
termination
  by (relation "measure (\<lambda>(text, first, last_p). last_p)") auto

function trim_loop ::
  "text_buffer \<Rightarrow> nat \<Rightarrow> nat \<Rightarrow> nat \<Rightarrow> bool \<Rightarrow> text_buffer \<times> nat" where
  "trim_loop text read_ptr last_p write_ptr previous_was_trimmable =
     (if read_ptr < last_p then
        (if IS_TRIMMABLE (text ! read_ptr) then
           (if \<not> previous_was_trimmable
            then trim_loop (text[write_ptr := 0x20]) (read_ptr + 1) last_p (write_ptr + 1) True
            else trim_loop text (read_ptr + 1) last_p write_ptr previous_was_trimmable)
         else trim_loop (text[write_ptr := text ! read_ptr]) (read_ptr + 1) last_p
                (write_ptr + 1) False)
      else (text, write_ptr))"
  by pat_completeness auto
termination
  by (relation "measure (\<lambda>(text, read_ptr, last_p, write_ptr, p). last_p - read_ptr)") auto

definition trim_all :: "text_buffer \<Rightarrow> text_buffer" where
  "trim_all input_text =
     (if input_text = [] then input_text
      else (let last_letter = length input_text;
                first = find_first input_text 0 in
            if first = last_letter then []
            else (let last_p = find_last input_text first last_letter in
                  case trim_loop input_text first last_p 0 False of
                    (text', write_ptr) \<Rightarrow> resize text' write_ptr)))"

section \<open>The contract of the trim engine, in the words of the specification\<close>

text \<open>
  The trimmable set, the deletion of the leading and the trailing run, and the collapse
  of a maximal run into one space, written as list functions.  \<open>trim_spec\<close> is what
  \<open>trim_all\<close> is compared with; none of the functions above uses it.
\<close>

definition trimmable_set :: "byte set" where
  "trimmable_set = {0x20, 0x09, 0x0A, 0x0D, 0x0C, 0x0B, 0x60}"

definition trimmable :: "byte \<Rightarrow> bool" where
  "trimmable c = (c \<in> trimmable_set)"

definition strip_ends :: "text_buffer \<Rightarrow> text_buffer" where
  "strip_ends xs = rev (dropWhile trimmable (rev (dropWhile trimmable xs)))"

function collapse_runs :: "text_buffer \<Rightarrow> text_buffer" where
  "collapse_runs [] = []"
| "collapse_runs (x # xs) =
     (if trimmable x then 0x20 # collapse_runs (dropWhile trimmable xs)
      else x # collapse_runs xs)"
  by pat_completeness auto
termination
  by (relation "measure length") (auto simp: length_dropWhile_le less_Suc_eq_le)

definition trim_spec :: "text_buffer \<Rightarrow> text_buffer" where
  "trim_spec xs = collapse_runs (strip_ends xs)"

text \<open>
  What the compacting loop of \<open>trim_all\<close> appends to the bytes already written, as a
  function of the flag and of the bytes still to read.
\<close>

fun flag_scan :: "bool \<Rightarrow> text_buffer \<Rightarrow> text_buffer" where
  "flag_scan previous_was_trimmable [] = []"
| "flag_scan previous_was_trimmable (x # xs) =
     (if IS_TRIMMABLE x then
        (if \<not> previous_was_trimmable then 0x20 # flag_scan True xs else flag_scan True xs)
      else x # flag_scan False xs)"

text \<open>
  The shape of a trimmed buffer: every trimmable byte in it is a space, is not the last
  byte, and the byte after it is not trimmable.
\<close>

fun single_spaced :: "text_buffer \<Rightarrow> bool" where
  "single_spaced [] = True"
| "single_spaced (x # xs) =
     ((trimmable x \<longrightarrow> x = 0x20 \<and> xs \<noteq> [] \<and> \<not> trimmable (hd xs)) \<and> single_spaced xs)"

text \<open>
  A buffer cut into words (non-empty, no trimmable byte) and the runs (non-empty, only
  trimmable bytes) before them: \<open>join_runs\<close> puts each run before its word,
  \<open>join_spaces\<close> one space.
\<close>

definition join_runs :: "(text_buffer \<times> text_buffer) list \<Rightarrow> text_buffer" where
  "join_runs pairs = concat (map (\<lambda>(s, w). s @ w) pairs)"

definition join_spaces :: "(text_buffer \<times> text_buffer) list \<Rightarrow> text_buffer" where
  "join_spaces pairs = concat (map (\<lambda>(s, w). 0x20 # w) pairs)"

definition is_word :: "text_buffer \<Rightarrow> bool" where
  "is_word w = (w \<noteq> [] \<and> (\<forall>c\<in>set w. \<not> trimmable c))"

definition is_run :: "text_buffer \<Rightarrow> bool" where
  "is_run s = (s \<noteq> [] \<and> (\<forall>c\<in>set s. trimmable c))"

section \<open>The loops\<close>

declare identity_loop.simps [simp del] rr_loop.simps [simp del] rc_loop.simps [simp del]
  find_first.simps [simp del] find_last.simps [simp del] trim_loop.simps [simp del]

lemma unat_byte_less: "unat (b :: byte) < 256"
  using unsigned_less[of b] by simp

lemma unat_byte_eq: "(unat (c :: byte) = unat (b :: byte)) = (c = b)"
  by (rule word_unat_eq_iff[symmetric])

subsection \<open>The identity table\<close>

lemma identity_loop_inv:
  "i \<le> 256 \<Longrightarrow> length t = 256 \<Longrightarrow>
   identity_loop t i = take i t @ map of_nat [i..<256]"
proof (induction t i rule: identity_loop.induct)
  case (1 t i)
  show ?case
  proof (cases "i < 256")
    case False
    with "1.prems" show ?thesis by (subst identity_loop.simps) simp
  next
    case True
    have "identity_loop t i = identity_loop (t[i := of_nat i]) (i + 1)"
      using True by (subst identity_loop.simps) simp
    also have "\<dots> = take (i + 1) (t[i := of_nat i]) @ map of_nat [i + 1..<256]"
      using "1.IH"[OF True] True "1.prems" by simp
    also have "take (i + 1) (t[i := of_nat i]) = take i t @ [of_nat i]"
      using True "1.prems" by (simp add: take_Suc_conv_app_nth)
    also have "(take i t @ [of_nat i]) @ map of_nat [i + 1..<256] = take i t @ map of_nat [i..<256]"
      using True by (simp add: upt_conv_Cons)
    finally show ?thesis .
  qed
qed

lemma prepare_identity_table_eq: "prepare_identity_table = map of_nat [0..<256]"
  by (simp add: prepare_identity_table_def identity_loop_inv)

lemma length_prepare_identity_table: "length prepare_identity_table = 256"
  by (simp add: prepare_identity_table_eq)

lemma prepare_identity_table_nth: "prepare_identity_table ! unat (b :: byte) = b"
  using unat_byte_less[of b] by (simp add: prepare_identity_table_eq)

subsection \<open>The rules written into the table\<close>

lemma length_apply_rule: "length (apply_rule r t) = length t"
  by (simp add: apply_rule_def split: prod.split option.split)

lemma length_apply_rules: "length (apply_rules rules t) = length t"
  by (induction rules arbitrary: t) (simp_all add: length_apply_rule)

lemma apply_rule_nth:
  "length t = 256 \<Longrightarrow>
   apply_rule (c, a) t ! unat (b :: byte) =
     (if c = b then (case a of Some v \<Rightarrow> v | None \<Rightarrow> REMOVAL_SENTINEL) else t ! unat b)"
  using unat_byte_less[of b] unat_byte_less[of c]
  by (auto simp: apply_rule_def nth_list_update unat_byte_eq split: option.split)

lemma apply_rules_nth_notin:
  "b \<notin> fst ` set rules \<Longrightarrow> length t = 256 \<Longrightarrow> apply_rules rules t ! unat b = t ! unat b"
proof (induction rules arbitrary: t)
  case Nil
  then show ?case by simp
next
  case (Cons r rules)
  obtain c a where r: "r = (c, a)" by (cases r)
  with Cons.prems have "c \<noteq> b" "b \<notin> fst ` set rules" by auto
  then show ?case using Cons.IH[of "apply_rule r t"] Cons.prems(2) r
    by (simp add: length_apply_rule apply_rule_nth)
qed

lemma apply_rules_nth_in:
  "unique_keys rules \<Longrightarrow> (b, a) \<in> set rules \<Longrightarrow> length t = 256 \<Longrightarrow>
   apply_rules rules t ! unat b = (case a of Some v \<Rightarrow> v | None \<Rightarrow> REMOVAL_SENTINEL)"
proof (induction rules arbitrary: t)
  case Nil
  then show ?case by simp
next
  case (Cons r rules)
  obtain c a' where r: "r = (c, a')" by (cases r)
  show ?case
  proof (cases "(b, a) \<in> set rules")
    case True
    moreover have "unique_keys rules" using Cons.prems(1) by (simp add: unique_keys_def)
    ultimately show ?thesis using Cons.IH[of "apply_rule r t"] Cons.prems(3)
      by (simp add: length_apply_rule)
  next
    case False
    with Cons.prems(2) r have eq: "c = b" "a' = a" by auto
    have "b \<notin> fst ` set rules" using Cons.prems(1) r eq by (simp add: unique_keys_def)
    then have "apply_rules rules (apply_rule r t) ! unat b = apply_rule r t ! unat b"
      using Cons.prems(3) by (simp add: apply_rules_nth_notin length_apply_rule)
    then show ?thesis using r eq Cons.prems(3) by (simp add: apply_rule_nth)
  qed
qed

lemma length_apply_replacements: "length (apply_replacements reps t) = length t"
  by (induction reps arbitrary: t) simp_all

lemma apply_replacements_nth_notin:
  "b \<notin> fst ` set reps \<Longrightarrow> length t = 256 \<Longrightarrow> apply_replacements reps t ! unat b = t ! unat b"
proof (induction reps arbitrary: t)
  case Nil
  then show ?case by simp
next
  case (Cons r reps)
  from Cons.prems have "fst r \<noteq> b" "b \<notin> fst ` set reps" by auto
  then show ?case using Cons.IH[of "t[unat (fst r) := snd r]"] Cons.prems(2)
    by (simp add: nth_list_update unat_byte_eq)
qed

lemma apply_replacements_nth_in:
  "unique_keys reps \<Longrightarrow> (b, v) \<in> set reps \<Longrightarrow> length t = 256 \<Longrightarrow>
   apply_replacements reps t ! unat b = v"
proof (induction reps arbitrary: t)
  case Nil
  then show ?case by simp
next
  case (Cons r reps)
  show ?case
  proof (cases "(b, v) \<in> set reps")
    case True
    moreover have "unique_keys reps" using Cons.prems(1) by (simp add: unique_keys_def)
    ultimately show ?thesis using Cons.IH[of "t[unat (fst r) := snd r]"] Cons.prems(3)
      by simp
  next
    case False
    with Cons.prems(2) have eq: "r = (b, v)" by auto
    have "b \<notin> fst ` set reps" using Cons.prems(1) eq by (simp add: unique_keys_def)
    then have "apply_replacements reps (t[unat (fst r) := snd r]) ! unat b
                 = (t[unat (fst r) := snd r]) ! unat b"
      using Cons.prems(3) by (simp add: apply_replacements_nth_notin)
    then show ?thesis using eq Cons.prems(3) unat_byte_less[of b] by simp
  qed
qed

subsection \<open>The element-wise scan\<close>

lemma rc_loop_inv:
  "i \<le> length buf \<Longrightarrow>
   rc_loop T buf i = take i buf @ map (\<lambda>b. T ! unat b) (drop i buf)"
proof (induction T buf i rule: rc_loop.induct)
  case (1 T buf i)
  show ?case
  proof (cases "i < length buf")
    case False
    with "1.prems" show ?thesis by (subst rc_loop.simps) simp
  next
    case True
    let ?b = "buf[i := T ! unat (buf ! i)]"
    have "rc_loop T buf i = rc_loop T ?b (i + 1)"
      using True by (subst rc_loop.simps) simp
    also have "\<dots> = take (i + 1) ?b @ map (\<lambda>b. T ! unat b) (drop (i + 1) ?b)"
      using "1.IH"[OF True] True by simp
    also have "take (i + 1) ?b = take i buf @ [T ! unat (buf ! i)]"
      using True by (simp add: take_Suc_conv_app_nth)
    also have "drop (i + 1) ?b = drop (Suc i) buf" by simp
    finally show ?thesis using True by (simp add: Cons_nth_drop_Suc[symmetric])
  qed
qed

lemma replace_chars_map: "replace_chars buf T = map (\<lambda>b. T ! unat b) buf"
  by (simp add: replace_chars_def rc_loop_inv)

subsection \<open>The compacting scan\<close>

lemma rr_loop_inv:
  "write_ptr \<le> read_ptr \<Longrightarrow> read_ptr \<le> length buf \<Longrightarrow>
   rr_loop T buf read_ptr write_ptr = (buf', w') \<Longrightarrow>
   w' \<le> length buf \<and> length buf' = length buf \<and>
   take w' buf' = take write_ptr buf @
      filter (\<lambda>c. c \<noteq> REMOVAL_SENTINEL) (map (\<lambda>b. T ! unat b) (drop read_ptr buf))"
proof (induction T buf read_ptr write_ptr rule: rr_loop.induct)
  case (1 T buf r w)
  show ?case
  proof (cases "r < length buf")
    case False
    with "1.prems" show ?thesis by (subst (asm) rr_loop.simps) simp
  next
    case True
    note lt = True
    let ?rep = "T ! unat (buf ! r)"
    have dr: "drop r buf = buf ! r # drop (Suc r) buf"
      using lt by (simp add: Cons_nth_drop_Suc)
    show ?thesis
    proof (cases "?rep \<noteq> REMOVAL_SENTINEL")
      case True
      let ?t = "buf[w := ?rep]"
      from "1.prems"(3) lt True
      have run: "rr_loop T ?t (r + 1) (w + 1) = (buf', w')"
        by (subst (asm) rr_loop.simps) (simp add: Let_def)
      have ih: "w' \<le> length ?t \<and> length buf' = length ?t \<and>
        take w' buf' = take (w + 1) ?t @
          filter (\<lambda>c. c \<noteq> REMOVAL_SENTINEL) (map (\<lambda>b. T ! unat b) (drop (r + 1) ?t))"
        using "1.IH"(1)[OF lt refl True _ _ run] "1.prems" lt by simp
      have a: "take (w + 1) ?t = take w buf @ [?rep]"
        using "1.prems" lt by (simp add: take_Suc_conv_app_nth)
      have b: "drop (r + 1) ?t = drop (Suc r) buf"
        using "1.prems" by simp
      show ?thesis using ih a b dr True by simp
    next
      case False
      from "1.prems"(3) lt False
      have run: "rr_loop T buf (r + 1) w = (buf', w')"
        by (subst (asm) rr_loop.simps) (simp add: Let_def)
      have ih: "w' \<le> length buf \<and> length buf' = length buf \<and>
        take w' buf' = take w buf @
          filter (\<lambda>c. c \<noteq> REMOVAL_SENTINEL) (map (\<lambda>b. T ! unat b) (drop (r + 1) buf))"
        using "1.IH"(2)[OF lt refl _ _ _ run] False "1.prems" lt by simp
      show ?thesis using ih dr False by simp
    qed
  qed
qed

lemma replace_and_remove_scan:
  "replace_and_remove buf T False =
     filter (\<lambda>c. c \<noteq> REMOVAL_SENTINEL) (map (\<lambda>b. T ! unat b) buf)"
proof (cases "buf = []")
  case True
  then show ?thesis by (simp add: replace_and_remove_def)
next
  case False
  obtain buf' w' where run: "rr_loop T buf 0 0 = (buf', w')"
    by (cases "rr_loop T buf 0 0")
  from rr_loop_inv[OF _ _ run]
  have "w' \<le> length buf" "length buf' = length buf"
    "take w' buf' = filter (\<lambda>c. c \<noteq> REMOVAL_SENTINEL) (map (\<lambda>b. T ! unat b) buf)"
    by simp_all
  then show ?thesis using False run
    by (simp add: replace_and_remove_def resize_def)
qed

subsection \<open>The trim engine\<close>

lemma make_trimmable_lookup_nth:
  "n < 256 \<Longrightarrow> make_trimmable_lookup ! n = (n \<in> {0x20, 0x09, 0x0A, 0x0D, 0x0C, 0x0B, 0x60})"
  by (simp add: make_trimmable_lookup_def nth_list_update)

lemma IS_TRIMMABLE_iff: "IS_TRIMMABLE c = trimmable c"
proof -
  have "IS_TRIMMABLE c = (unat c \<in> {0x20, 0x09, 0x0A, 0x0D, 0x0C, 0x0B, 0x60})"
    using unat_byte_less[of c] by (simp only: IS_TRIMMABLE_def make_trimmable_lookup_nth)
  also have "\<dots> = (unat c = unat (0x20 :: byte) \<or> unat c = unat (0x09 :: byte)
      \<or> unat c = unat (0x0A :: byte) \<or> unat c = unat (0x0D :: byte)
      \<or> unat c = unat (0x0C :: byte) \<or> unat c = unat (0x0B :: byte)
      \<or> unat c = unat (0x60 :: byte))"
    by simp
  also have "\<dots> = trimmable c"
    by (simp only: unat_byte_eq trimmable_def trimmable_set_def insert_iff empty_iff simp_thms)
  finally show ?thesis .
qed

lemma IS_TRIMMABLE_eq: "IS_TRIMMABLE = trimmable"
  by (rule ext) (rule IS_TRIMMABLE_iff)

lemma find_first_takeWhile:
  "first \<le> length buf \<Longrightarrow>
   find_first buf first = first + length (takeWhile trimmable (drop first buf))"
proof (induction buf first rule: find_first.induct)
  case (1 buf first)
  show ?case
  proof (cases "first < length buf \<and> IS_TRIMMABLE (buf ! first)")
    case True
    then have "find_first buf first = find_first buf (first + 1)"
      by (subst find_first.simps) simp
    also have "\<dots> = first + 1 + length (takeWhile trimmable (drop (first + 1) buf))"
      using "1.IH"[OF True] True by simp
    finally show ?thesis using True
      by (simp add: Cons_nth_drop_Suc[symmetric] IS_TRIMMABLE_iff)
  next
    case False
    then have "find_first buf first = first"
      by (subst find_first.simps) (simp only: if_False)
    moreover have "takeWhile trimmable (drop first buf) = []"
    proof (cases "first < length buf")
      case True
      with False show ?thesis
        by (simp add: Cons_nth_drop_Suc[symmetric] IS_TRIMMABLE_iff)
    next
      case False
      then show ?thesis by simp
    qed
    ultimately show ?thesis by simp
  qed
qed

lemma find_last_dropWhile:
  "first \<le> last_p \<Longrightarrow> last_p \<le> length buf \<Longrightarrow>
   find_last buf first last_p =
     first + length (dropWhile trimmable (rev (take (last_p - first) (drop first buf))))"
proof (induction buf first last_p rule: find_last.induct)
  case (1 buf first last_p)
  show ?case
  proof (cases "last_p > first")
    case False
    with "1.prems" show ?thesis by (subst find_last.simps) simp
  next
    case True
    then obtain k where k: "last_p - first = Suc k" "last_p - 1 = first + k"
        "last_p - Suc first = k"
      by (cases "last_p - first") auto
    have seg: "take (last_p - first) (drop first buf) =
        take k (drop first buf) @ [buf ! (last_p - 1)]"
      using k "1.prems" True by (simp add: take_Suc_conv_app_nth)
    show ?thesis
    proof (cases "IS_TRIMMABLE (buf ! (last_p - 1))")
      case t: True
      have "find_last buf first last_p = find_last buf first (last_p - 1)"
        using True t by (subst find_last.simps) simp
      also have "\<dots> = first + length (dropWhile trimmable
            (rev (take (last_p - 1 - first) (drop first buf))))"
        using "1.IH" True t "1.prems" by simp
      finally show ?thesis using seg t k by (simp add: IS_TRIMMABLE_iff)
    next
      case f: False
      have "find_last buf first last_p = last_p"
        using f by (subst find_last.simps) simp
      then show ?thesis using seg f k "1.prems" True by (simp add: IS_TRIMMABLE_iff)
    qed
  qed
qed

lemma trim_loop_inv:
  "write_ptr \<le> read_ptr \<Longrightarrow> read_ptr \<le> last_p \<Longrightarrow> last_p \<le> length buf \<Longrightarrow>
   trim_loop buf read_ptr last_p write_ptr p = (buf', w') \<Longrightarrow>
   w' \<le> length buf \<and> length buf' = length buf \<and>
   take w' buf' = take write_ptr buf @ flag_scan p (take (last_p - read_ptr) (drop read_ptr buf))"
proof (induction buf read_ptr last_p write_ptr p rule: trim_loop.induct)
  case (1 buf r l w p)
  show ?case
  proof (cases "r < l")
    case False
    with "1.prems" show ?thesis by (subst (asm) trim_loop.simps) simp
  next
    case lt: True
    then obtain k where k: "l - r = Suc k" "l - (r + 1) = k"
      by (cases "l - r") auto
    have rl: "r < length buf" using lt "1.prems" by simp
    have seg: "take (l - r) (drop r buf) = buf ! r # take k (drop (Suc r) buf)"
      using k rl by (simp add: Cons_nth_drop_Suc[symmetric])
    show ?thesis
    proof (cases "IS_TRIMMABLE (buf ! r)")
      case t: True
      show ?thesis
      proof (cases p)
        case pf: False
        let ?t = "buf[w := 0x20]"
        from "1.prems"(4) lt t pf
        have run: "trim_loop ?t (r + 1) l (w + 1) True = (buf', w')"
          by (subst (asm) trim_loop.simps) simp
        have ih: "w' \<le> length ?t \<and> length buf' = length ?t \<and>
          take w' buf' = take (w + 1) ?t @ flag_scan True (take (l - (r + 1)) (drop (r + 1) ?t))"
          using "1.IH"(1)[OF lt t _ _ _ _ run] pf "1.prems" lt by simp
        have a: "take (w + 1) ?t = take w buf @ [0x20]"
          using "1.prems" rl by (simp add: take_Suc_conv_app_nth)
        have b: "drop (r + 1) ?t = drop (Suc r) buf"
          using "1.prems" by simp
        show ?thesis using ih a b seg t pf k by simp
      next
        case pt: True
        from "1.prems"(4) lt t pt
        have run: "trim_loop buf (r + 1) l w p = (buf', w')"
          by (subst (asm) trim_loop.simps) simp
        have ih: "w' \<le> length buf \<and> length buf' = length buf \<and>
          take w' buf' = take w buf @ flag_scan p (take (l - (r + 1)) (drop (r + 1) buf))"
          using "1.IH"(2)[OF lt t _ _ _ _ run] pt "1.prems" lt by simp
        show ?thesis using ih seg t pt k by simp
      qed
    next
      case f: False
      let ?t = "buf[w := buf ! r]"
      from "1.prems"(4) lt f
      have run: "trim_loop ?t (r + 1) l (w + 1) False = (buf', w')"
        by (subst (asm) trim_loop.simps) simp
      have ih: "w' \<le> length ?t \<and> length buf' = length ?t \<and>
        take w' buf' = take (w + 1) ?t @ flag_scan False (take (l - (r + 1)) (drop (r + 1) ?t))"
        using "1.IH"(3)[OF lt f _ _ _ run] "1.prems" lt by simp
      have a: "take (w + 1) ?t = take w buf @ [buf ! r]"
        using "1.prems" rl by (simp add: take_Suc_conv_app_nth)
      have b: "drop (r + 1) ?t = drop (Suc r) buf"
        using "1.prems" by simp
      show ?thesis using ih a b seg f k by simp
    qed
  qed
qed

lemma flag_scan_collapse:
  "flag_scan p xs = collapse_runs (if p then dropWhile trimmable xs else xs)"
  by (induction xs arbitrary: p) (simp_all add: IS_TRIMMABLE_iff)

lemma take_length_dropWhile_rev:
  "take (length (dropWhile P (rev ys))) ys = rev (dropWhile P (rev ys))"
proof -
  define A where "A = rev (dropWhile P (rev ys))"
  define B where "B = rev (takeWhile P (rev ys))"
  have "rev ys = rev B @ rev A" by (simp add: A_def B_def)
  then have "rev (rev ys) = rev (rev B @ rev A)" by (rule arg_cong)
  then have "ys = A @ B" by simp
  then have "take (length A) ys = A" by simp
  then show ?thesis by (simp add: A_def)
qed

lemma take_strip_ends:
  "take (length (dropWhile trimmable (rev (dropWhile trimmable xs)))) (dropWhile trimmable xs)
     = strip_ends xs"
  by (simp add: strip_ends_def take_length_dropWhile_rev)

lemma trim_all_refines: "trim_all buf = trim_spec buf"
proof (cases "dropWhile trimmable buf = []")
  case True
  have ff: "find_first buf 0 = length (takeWhile trimmable buf)"
    by (simp add: find_first_takeWhile)
  have tw: "takeWhile trimmable buf = buf" using True by simp
  have fl: "find_first buf 0 = length buf" by (simp only: ff tw)
  have se: "strip_ends buf = []" unfolding strip_ends_def True by simp
  show ?thesis using fl se
    by (simp add: trim_all_def trim_spec_def Let_def)
next
  case False
  let ?first = "find_first buf 0"
  let ?last = "find_last buf ?first (length buf)"
  have ne: "buf \<noteq> []" using False by auto
  have ff: "?first = length (takeWhile trimmable buf)"
    by (simp add: find_first_takeWhile)
  have dr: "drop ?first buf = dropWhile trimmable buf"
    by (simp add: ff dropWhile_eq_drop)
  have flt: "?first < length buf"
    using False ff length_takeWhile_le[of trimmable buf]
    by (metis dr drop_eq_Nil not_le_imp_less)
  have "length (dropWhile trimmable buf) = length buf - ?first"
    using arg_cong[OF dr, of length] by simp
  then have tk: "take (length buf - ?first) (dropWhile trimmable buf) = dropWhile trimmable buf"
    by simp
  have "?first \<le> length buf" using flt by simp
  from find_last_dropWhile[OF this order_refl]
  have "?last = ?first + length (dropWhile trimmable
      (rev (take (length buf - ?first) (drop ?first buf))))" .
  then have fl: "?last = ?first + length (dropWhile trimmable (rev (dropWhile trimmable buf)))"
    by (simp only: dr tk)
  have lle: "?last \<le> length buf"
  proof -
    have "length (dropWhile trimmable (rev (dropWhile trimmable buf))) \<le> length (drop ?first buf)"
      by (simp only: dr) (metis length_dropWhile_le length_rev)
    then show ?thesis using fl flt by simp
  qed
  obtain buf' w' where run: "trim_loop buf ?first ?last 0 False = (buf', w')"
    by (cases "trim_loop buf ?first ?last 0 False")
  have fle: "?first \<le> ?last" using fl by simp
  from trim_loop_inv[OF _ fle lle run]
  have inv: "w' \<le> length buf" "length buf' = length buf"
    "take w' buf' = flag_scan False (take (?last - ?first) (drop ?first buf))"
    by simp_all
  have seg: "take (?last - ?first) (drop ?first buf) = strip_ends buf"
    using fl dr take_strip_ends[of buf] by simp
  have "trim_all buf = resize buf' w'"
    using ne flt run by (simp add: trim_all_def Let_def)
  also have "\<dots> = take w' buf'" using inv by (simp add: resize_def)
  also have "\<dots> = collapse_runs (strip_ends buf)"
    using inv(3) seg by (simp add: flag_scan_collapse)
  finally show ?thesis by (simp add: trim_spec_def)
qed

subsection \<open>The contract of the trim engine\<close>

lemma trimmable_space: "trimmable 0x20"
  by (simp add: trimmable_def trimmable_set_def)

lemma collapse_runs_single_spaced: "single_spaced xs \<Longrightarrow> collapse_runs xs = xs"
proof (induction xs)
  case Nil
  then show ?case by simp
next
  case (Cons x xs)
  then have ih: "collapse_runs xs = xs" by simp
  show ?case
  proof (cases "trimmable x")
    case True
    with Cons.prems have "x = 0x20" "xs \<noteq> []" "\<not> trimmable (hd xs)" by simp_all
    then have "dropWhile trimmable xs = xs" by (cases xs) simp_all
    then show ?thesis using True ih \<open>x = 0x20\<close> by simp
  next
    case False
    then show ?thesis using ih by simp
  qed
qed

lemma collapse_runs_Nil_iff: "collapse_runs xs = [] \<longleftrightarrow> xs = []"
  by (cases xs) simp_all

lemma hd_collapse_runs: "xs \<noteq> [] \<Longrightarrow> \<not> trimmable (hd xs) \<Longrightarrow> hd (collapse_runs xs) = hd xs"
  by (cases xs) simp_all

lemma dropWhile_last_ne:
  "xs \<noteq> [] \<Longrightarrow> \<not> P (last xs) \<Longrightarrow> dropWhile P xs \<noteq> [] \<and> last (dropWhile P xs) = last xs"
  by (induction xs) (auto split: if_splits)

lemma last_collapse_runs:
  "xs \<noteq> [] \<Longrightarrow> \<not> trimmable (last xs) \<Longrightarrow> last (collapse_runs xs) = last xs"
proof (induction xs rule: collapse_runs.induct)
  case 1
  then show ?case by simp
next
  case (2 x xs)
  show ?case
  proof (cases "trimmable x")
    case True
    with "2.prems" have ne: "xs \<noteq> []" and l: "\<not> trimmable (last xs)" by (auto split: if_splits)
    from dropWhile_last_ne[where P = trimmable and xs = xs, OF ne l]
    have d: "dropWhile trimmable xs \<noteq> []" "last (dropWhile trimmable xs) = last xs" by simp_all
    have c: "collapse_runs (dropWhile trimmable xs) \<noteq> []"
      using d(1) by (simp only: collapse_runs_Nil_iff not_False_eq_True)
    have "last (collapse_runs (dropWhile trimmable xs)) = last xs"
      using "2.IH"(1)[OF True d(1)] d l by simp
    then show ?thesis using True c ne by simp
  next
    case False
    show ?thesis
    proof (cases "xs = []")
      case True
      then show ?thesis using False by simp
    next
      case ne: False
      with "2.prems" have "\<not> trimmable (last xs)" by simp
      then show ?thesis using "2.IH"(2)[OF False ne] False ne by (simp add: collapse_runs_Nil_iff)
    qed
  qed
qed

lemma single_spaced_collapse_runs:
  "xs = [] \<or> \<not> trimmable (last xs) \<Longrightarrow> single_spaced (collapse_runs xs)"
proof (induction xs rule: collapse_runs.induct)
  case 1
  then show ?case by simp
next
  case (2 x xs)
  show ?case
  proof (cases "trimmable x")
    case True
    with "2.prems" have ne: "xs \<noteq> []" and l: "\<not> trimmable (last xs)" by (auto split: if_splits)
    from dropWhile_last_ne[where P = trimmable and xs = xs, OF ne l]
    have d: "dropWhile trimmable xs \<noteq> []" "last (dropWhile trimmable xs) = last xs" by simp_all
    have h: "\<not> trimmable (hd (dropWhile trimmable xs))"
      using d(1) by (rule hd_dropWhile)
    have "single_spaced (collapse_runs (dropWhile trimmable xs))"
      using "2.IH"(1)[OF True] d l by simp
    moreover have c: "collapse_runs (dropWhile trimmable xs) \<noteq> []"
      using d(1) by (simp only: collapse_runs_Nil_iff not_False_eq_True)
    moreover have "hd (collapse_runs (dropWhile trimmable xs)) = hd (dropWhile trimmable xs)"
      using d(1) h by (rule hd_collapse_runs)
    ultimately show ?thesis using True h by simp
  next
    case False
    have "xs = [] \<or> \<not> trimmable (last xs)" using "2.prems" by (auto split: if_splits)
    then show ?thesis using "2.IH"(2)[OF False] False by simp
  qed
qed

lemma strip_ends_shape:
  "strip_ends xs = [] \<or> (\<not> trimmable (hd (strip_ends xs)) \<and> \<not> trimmable (last (strip_ends xs)))"
proof (cases "strip_ends xs = []")
  case True
  then show ?thesis by simp
next
  case False
  let ?d = "dropWhile trimmable xs"
  let ?e = "dropWhile trimmable (rev ?d)"
  have e: "?e \<noteq> []" using False by (simp add: strip_ends_def)
  have d: "?d \<noteq> []"
  proof
    assume a: "?d = []"
    have "?e = []" unfolding a by simp
    with e show False by blast
  qed
  have "\<not> trimmable (hd ?e)" using e by (rule hd_dropWhile)
  then have l: "\<not> trimmable (last (strip_ends xs))"
    using e by (simp add: strip_ends_def last_rev)
  have "\<not> trimmable (hd ?d)" using d by (rule hd_dropWhile)
  then have "\<not> trimmable (last (rev ?d))" using d by (simp add: last_rev)
  with dropWhile_last_ne[of "rev ?d" trimmable] d
  have "last ?e = last (rev ?d)" by simp
  then have "hd (strip_ends xs) = hd ?d"
    using e d by (simp add: strip_ends_def hd_rev last_rev)
  with \<open>\<not> trimmable (hd ?d)\<close> l show ?thesis by simp
qed

lemma strip_ends_fixed:
  "xs = [] \<or> (\<not> trimmable (hd xs) \<and> \<not> trimmable (last xs)) \<Longrightarrow> strip_ends xs = xs"
proof (cases "xs = []")
  case True
  then show ?thesis by (simp add: strip_ends_def)
next
  case False
  assume "xs = [] \<or> (\<not> trimmable (hd xs) \<and> \<not> trimmable (last xs))"
  with False have h: "\<not> trimmable (hd xs)" and l: "\<not> trimmable (last xs)" by simp_all
  have a: "dropWhile trimmable xs = xs" using False h by (cases xs) simp_all
  have "\<not> trimmable (hd (rev xs))" using False l by (simp add: hd_rev)
  then have b: "dropWhile trimmable (rev xs) = rev xs" using False by (cases "rev xs") simp_all
  show ?thesis by (simp add: strip_ends_def a b)
qed

lemma trim_spec_shape:
  "trim_spec xs = [] \<or> (\<not> trimmable (hd (trim_spec xs)) \<and> \<not> trimmable (last (trim_spec xs)))"
  using strip_ends_shape[of xs]
  by (auto simp: trim_spec_def hd_collapse_runs last_collapse_runs collapse_runs_Nil_iff)

lemma single_spaced_trim_spec: "single_spaced (trim_spec xs)"
  using strip_ends_shape[of xs] by (auto simp: trim_spec_def intro: single_spaced_collapse_runs)

lemma trim_spec_idem: "trim_spec (trim_spec xs) = trim_spec xs"
proof -
  have "strip_ends (trim_spec xs) = trim_spec xs"
    using trim_spec_shape[of xs] by (rule strip_ends_fixed)
  then have "trim_spec (trim_spec xs) = collapse_runs (trim_spec xs)"
    by (simp add: trim_spec_def)
  also have "\<dots> = trim_spec xs"
    using single_spaced_trim_spec by (rule collapse_runs_single_spaced)
  finally show ?thesis .
qed

lemma filter_dropWhile_neg:
  "filter (\<lambda>c. \<not> P c) (dropWhile P xs) = filter (\<lambda>c. \<not> P c) xs"
  by (induction xs) simp_all

lemma filter_collapse_runs:
  "filter (\<lambda>c. \<not> trimmable c) (collapse_runs xs) = filter (\<lambda>c. \<not> trimmable c) xs"
  by (induction xs rule: collapse_runs.induct) (simp_all add: filter_dropWhile_neg trimmable_space)

lemma filter_strip_ends:
  "filter (\<lambda>c. \<not> trimmable c) (strip_ends xs) = filter (\<lambda>c. \<not> trimmable c) xs"
proof -
  have "filter (\<lambda>c. \<not> trimmable c) (strip_ends xs)
      = rev (filter (\<lambda>c. \<not> trimmable c) (dropWhile trimmable (rev (dropWhile trimmable xs))))"
    by (simp add: strip_ends_def rev_filter)
  also have "\<dots> = rev (filter (\<lambda>c. \<not> trimmable c) (rev (dropWhile trimmable xs)))"
    by (simp only: filter_dropWhile_neg)
  also have "\<dots> = filter (\<lambda>c. \<not> trimmable c) (dropWhile trimmable xs)"
    by (simp add: rev_filter)
  finally show ?thesis by (simp only: filter_dropWhile_neg)
qed

lemma length_collapse_runs: "length (collapse_runs xs) \<le> length xs"
proof (induction xs rule: collapse_runs.induct)
  case 1
  then show ?case by simp
next
  case (2 x xs)
  show ?case
  proof (cases "trimmable x")
    case True
    have "length (dropWhile trimmable xs) \<le> length xs" by (rule length_dropWhile_le)
    then show ?thesis using "2.IH"(1)[OF True] True by simp
  next
    case False
    then show ?thesis using "2.IH"(2)[OF False] by simp
  qed
qed

lemma length_strip_ends: "length (strip_ends xs) \<le> length xs"
proof -
  have "length (strip_ends xs) = length (dropWhile trimmable (rev (dropWhile trimmable xs)))"
    by (simp add: strip_ends_def)
  also have "\<dots> \<le> length (rev (dropWhile trimmable xs))"
    by (rule length_dropWhile_le)
  also have "\<dots> = length (dropWhile trimmable xs)" by simp
  also have "\<dots> \<le> length xs" by (rule length_dropWhile_le)
  finally show ?thesis .
qed

lemma length_trim_spec: "length (trim_spec xs) \<le> length xs"
  using length_collapse_runs[of "strip_ends xs"] length_strip_ends[of xs]
  by (simp add: trim_spec_def)

lemma collapse_runs_word:
  "\<forall>c\<in>set w. \<not> trimmable c \<Longrightarrow> collapse_runs (w @ rest) = w @ collapse_runs rest"
  by (induction w) simp_all

lemma collapse_runs_run:
  assumes "is_run s" and "rest = [] \<or> \<not> trimmable (hd rest)"
  shows "collapse_runs (s @ rest) = 0x20 # collapse_runs rest"
proof -
  from assms(1) obtain x s' where s: "s = x # s'" and x: "trimmable x"
    and s': "\<And>c. c \<in> set s' \<Longrightarrow> trimmable c"
    by (cases s) (auto simp: is_run_def)
  have "dropWhile trimmable (s' @ rest) = dropWhile trimmable rest"
    using s' by (rule dropWhile_append2)
  also have "\<dots> = rest" using assms(2) by (cases rest) simp_all
  finally show ?thesis using s x by simp
qed

lemma join_runs_Cons: "join_runs ((s, w) # pairs) = s @ w @ join_runs pairs"
  by (simp add: join_runs_def)

lemma join_spaces_Cons: "join_spaces ((s, w) # pairs) = 0x20 # w @ join_spaces pairs"
  by (simp add: join_spaces_def)

lemma collapse_runs_join:
  "\<forall>(s, w)\<in>set pairs. is_run s \<and> is_word w \<Longrightarrow>
   collapse_runs (join_runs pairs) = join_spaces pairs"
proof (induction pairs)
  case Nil
  then show ?case by (simp add: join_runs_def join_spaces_def)
next
  case (Cons p pairs)
  obtain s w where p: "p = (s, w)" by (cases p)
  with Cons.prems have s: "is_run s" and w: "is_word w"
    and rest: "\<forall>(s, w)\<in>set pairs. is_run s \<and> is_word w" by simp_all
  have hw: "\<not> trimmable (hd (w @ join_runs pairs))"
    using w by (cases w) (simp_all add: is_word_def)
  have "collapse_runs (s @ w @ join_runs pairs) = 0x20 # collapse_runs (w @ join_runs pairs)"
    using s hw by (simp add: collapse_runs_run)
  also have "collapse_runs (w @ join_runs pairs) = w @ collapse_runs (join_runs pairs)"
    using w by (simp add: collapse_runs_word is_word_def)
  finally show ?case using Cons.IH[OF rest] p
    by (simp add: join_runs_Cons join_spaces_Cons)
qed

lemma last_join_runs:
  "\<forall>(s, w)\<in>set pairs. is_run s \<and> is_word w \<Longrightarrow> pairs \<noteq> [] \<Longrightarrow>
   join_runs pairs \<noteq> [] \<and> \<not> trimmable (last (join_runs pairs))"
proof (induction pairs)
  case Nil
  then show ?case by simp
next
  case (Cons p pairs)
  obtain s w where p: "p = (s, w)" by (cases p)
  with Cons.prems have w: "w \<noteq> []" "\<not> trimmable (last w)"
    and rest: "\<forall>(s, w)\<in>set pairs. is_run s \<and> is_word w" by (simp_all add: is_word_def)
  show ?case
  proof (cases "pairs = []")
    case True
    then show ?thesis using p w by (simp add: join_runs_def)
  next
    case False
    from Cons.IH[OF rest False] show ?thesis using p by (simp add: join_runs_Cons)
  qed
qed

lemma strip_ends_sandwich:
  assumes "\<forall>c\<in>set lead. trimmable c" and "\<forall>c\<in>set trail. trimmable c"
    and "body \<noteq> []" and "\<not> trimmable (hd body)" and "\<not> trimmable (last body)"
  shows "strip_ends (lead @ body @ trail) = body"
proof -
  have "dropWhile trimmable (lead @ body @ trail) = dropWhile trimmable (body @ trail)"
    using assms(1) by simp
  also have "\<dots> = body @ trail" using assms(3,4) by (cases body) simp_all
  finally have a: "dropWhile trimmable (lead @ body @ trail) = body @ trail" .
  have "\<And>c. c \<in> set (rev trail) \<Longrightarrow> trimmable c"
    using assms(2) by simp
  then have "dropWhile trimmable (rev trail @ rev body) = dropWhile trimmable (rev body)"
    by (rule dropWhile_append2)
  also have "\<dots> = rev body" using assms(3,5) by (cases "rev body") (simp_all add: hd_rev[symmetric])
  finally show ?thesis by (simp add: strip_ends_def a)
qed

lemma trim_spec_runs:
  assumes "\<forall>c\<in>set lead. trimmable c" and "\<forall>c\<in>set trail. trimmable c"
    and "is_word w0" and "\<forall>(s, w)\<in>set pairs. is_run s \<and> is_word w"
  shows "trim_spec (lead @ w0 @ join_runs pairs @ trail) = w0 @ join_spaces pairs"
proof -
  let ?body = "w0 @ join_runs pairs"
  have ne: "?body \<noteq> []" using assms(3) by (simp add: is_word_def)
  have h: "\<not> trimmable (hd ?body)" using assms(3) by (cases w0) (simp_all add: is_word_def)
  have l: "\<not> trimmable (last ?body)"
  proof (cases "pairs = []")
    case True
    then show ?thesis using assms(3) by (simp add: join_runs_def is_word_def)
  next
    case False
    from last_join_runs[OF assms(4) False] show ?thesis by simp
  qed
  have "strip_ends (lead @ ?body @ trail) = ?body"
    using assms(1,2) ne h l by (rule strip_ends_sandwich)
  then have "trim_spec (lead @ w0 @ join_runs pairs @ trail) = collapse_runs ?body"
    by (simp add: trim_spec_def)
  also have "\<dots> = w0 @ collapse_runs (join_runs pairs)"
    using assms(3) by (simp add: collapse_runs_word is_word_def)
  finally show ?thesis using collapse_runs_join[OF assms(4)] by simp
qed

lemma trim_spec_all_trimmable:
  assumes "\<forall>c\<in>set xs. trimmable c"
  shows "trim_spec xs = []"
proof -
  have d: "dropWhile trimmable xs = []" using assms by simp
  show ?thesis unfolding trim_spec_def strip_ends_def d by simp
qed

lemma create_table_checked_nth:
  assumes "unique_keys rules"
  shows "fst (create_table_checked rules) ! unat b =
     (case map_of rules b of None \<Rightarrow> b | Some None \<Rightarrow> REMOVAL_SENTINEL | Some (Some v) \<Rightarrow> v)"
proof (cases "map_of rules b")
  case None
  then have "b \<notin> fst ` set rules" by (simp add: map_of_eq_None_iff)
  then show ?thesis using None
    by (simp add: create_table_checked_def apply_rules_nth_notin
        length_prepare_identity_table prepare_identity_table_nth)
next
  case (Some a)
  then have "(b, a) \<in> set rules" by (rule map_of_SomeD)
  then have "apply_rules rules prepare_identity_table ! unat b =
      (case a of Some v \<Rightarrow> v | None \<Rightarrow> REMOVAL_SENTINEL)"
    using assms by (simp add: apply_rules_nth_in length_prepare_identity_table)
  moreover have "rules \<noteq> []" using Some by auto
  ultimately show ?thesis using Some
    by (simp add: create_table_checked_def split: option.split)
qed

subsection \<open>The public functions\<close>

lemma create_table_checked_length: "length (fst (create_table_checked rules)) = 256"
  by (simp add: create_table_checked_def length_apply_rules length_prepare_identity_table)

lemma create_replacement_table_length: "length (create_replacement_table reps) = 256"
  by (simp add: create_replacement_table_def length_apply_replacements
      length_prepare_identity_table)

text \<open>
  The order in which the loop visits the rules does not matter: two association lists
  with unique keys and the same entries give the same table.
\<close>

lemma table_eqI:
  assumes "length s = 256" and "length t = 256"
    and "\<And>b :: byte. s ! unat b = t ! unat b"
  shows "s = t"
proof (rule nth_equalityI)
  show "length s = length t" using assms(1,2) by simp
next
  fix i assume "i < length s"
  then have i: "i < 256" using assms(1) by simp
  then have "unat (of_nat i :: byte) = i" by (simp add: unat_of_nat)
  with assms(3)[of "of_nat i"] show "s ! i = t ! i" by simp
qed

lemma create_table_checked_order:
  assumes "unique_keys rules" and "unique_keys rules'" and "set rules' = set rules"
  shows "create_table_checked rules' = create_table_checked rules"
proof -
  have m: "map_of rules' = map_of rules"
    using assms by (simp add: unique_keys_def map_of_inject_set)
  have "fst (create_table_checked rules') = fst (create_table_checked rules)"
    by (rule table_eqI)
      (simp_all add: create_table_checked_length create_table_checked_nth assms(1,2) m)
  moreover have "rules' = [] \<longleftrightarrow> rules = []" using assms(3) by auto
  then have "snd (create_table_checked rules') = snd (create_table_checked rules)"
    by (simp add: create_table_checked_def)
  ultimately show ?thesis by (simp add: prod_eq_iff)
qed

lemma create_replacement_table_nth:
  assumes "unique_keys reps"
  shows "create_replacement_table reps ! unat b =
     (case map_of reps b of None \<Rightarrow> b | Some v \<Rightarrow> v)"
proof (cases "map_of reps b")
  case None
  then have "b \<notin> fst ` set reps" by (simp add: map_of_eq_None_iff)
  then show ?thesis using None
    by (simp add: create_replacement_table_def apply_replacements_nth_notin
        length_prepare_identity_table prepare_identity_table_nth)
next
  case (Some v)
  then have "(b, v) \<in> set reps" by (rule map_of_SomeD)
  then show ?thesis using Some assms
    by (simp add: create_replacement_table_def apply_replacements_nth_in
        length_prepare_identity_table)
qed

lemma create_replacement_table_order:
  assumes "unique_keys reps" and "unique_keys reps'" and "set reps' = set reps"
  shows "create_replacement_table reps' = create_replacement_table reps"
proof -
  have m: "map_of reps' = map_of reps"
    using assms by (simp add: unique_keys_def map_of_inject_set)
  show ?thesis
    by (rule table_eqI)
      (simp_all add: create_replacement_table_length create_replacement_table_nth assms(1,2) m)
qed

lemma once_scan:
  "rules \<noteq> [] \<Longrightarrow>
   ascii_char_replace_remove_once buf rules =
     filter (\<lambda>c. c \<noteq> REMOVAL_SENTINEL)
       (map (\<lambda>b. fst (create_table_checked rules) ! unat b) buf)"
  by (simp add: ascii_char_replace_remove_once_def create_table_checked_def
      replace_and_remove_scan)

lemma once_empty_rules: "ascii_char_replace_remove_once buf [] = buf"
  by (simp add: ascii_char_replace_remove_once_def create_table_checked_def
      replace_and_remove_def)

lemma editor_apply_once:
  "editor_apply (new_ReusableASCIICharEditor rules) buf = ascii_char_replace_remove_once buf rules"
  by (simp add: editor_apply_def new_ReusableASCIICharEditor_def
      ascii_char_replace_remove_once_def Let_def split: prod.split)

lemma replacer_apply_once:
  "replacer_apply (new_ReusableCharReplacer reps) buf = ascii_replace_once buf reps"
  by (simp add: replacer_apply_def new_ReusableCharReplacer_def ascii_replace_once_def)

lemma replace_once_map:
  "ascii_replace_once buf reps = map (\<lambda>b. create_replacement_table reps ! unat b) buf"
proof (cases "reps = []")
  case True
  have "map (\<lambda>b. prepare_identity_table ! unat b) buf = buf"
    by (simp add: prepare_identity_table_nth)
  then show ?thesis using True
    by (simp add: ascii_replace_once_def create_replacement_table_def)
next
  case False
  then show ?thesis by (simp add: ascii_replace_once_def replace_chars_map)
qed

lemma filter_map_skip:
  "f b = z \<Longrightarrow>
   filter (\<lambda>c. c \<noteq> z) (map f (filter (\<lambda>c. c \<noteq> b) xs)) = filter (\<lambda>c. c \<noteq> z) (map f xs)"
  by (induction xs) auto

lemma filter_map_count:
  "f b = z \<Longrightarrow> length (filter (\<lambda>c. c \<noteq> z) (map f xs)) + count_list xs b \<le> length xs"
  by (induction xs) auto

lemma length_replace_and_remove: "length (replace_and_remove buf T i) \<le> length buf"
proof (cases i)
  case True
  then show ?thesis by (simp add: replace_and_remove_def)
next
  case False
  then show ?thesis by (simp add: replace_and_remove_scan)
qed

lemma length_once: "length (ascii_char_replace_remove_once buf rules) \<le> length buf"
  by (simp add: ascii_char_replace_remove_once_def length_replace_and_remove split: prod.split)

subsection \<open>The scenarios of the specification, computed\<close>

text \<open>
  The six input and output pairs that the specification lists, with the characters
  written as their ASCII codes.
\<close>

lemma scenario_empty_rules:
  "ascii_char_replace_remove_once
     [0x68, 0x65, 0x6C, 0x6C, 0x6F, 0x20, 0x77, 0x6F, 0x72, 0x6C, 0x64] [] =
     [0x68, 0x65, 0x6C, 0x6C, 0x6F, 0x20, 0x77, 0x6F, 0x72, 0x6C, 0x64]"
  by code_simp

lemma scenario_remove_dash:
  "ascii_char_replace_remove_once [0x61, 0x2D, 0x62, 0x2D, 0x63] [(0x2D, None)] =
     [0x61, 0x62, 0x63]"
  by code_simp

lemma scenario_remove_and_replace:
  "ascii_char_replace_remove_once [0x61, 0x31, 0x62, 0x32, 0x63, 0x33]
     [(0x31, None), (0x32, Some 0x21)] = [0x61, 0x62, 0x21, 0x63, 0x33]"
  by code_simp

lemma scenario_trim:
  "trim_all [0x20, 0x20, 0x09, 0x20, 0x68, 0x65, 0x6C, 0x6C, 0x6F, 0x20, 0x0A, 0x20,
             0x77, 0x6F, 0x72, 0x6C, 0x64, 0x20, 0x20] =
     [0x68, 0x65, 0x6C, 0x6C, 0x6F, 0x20, 0x77, 0x6F, 0x72, 0x6C, 0x64]"
  by code_simp

lemma scenario_trim_all_trimmable: "trim_all [0x09, 0x09, 0x09] = []"
  by code_simp

lemma scenario_pure_replacement:
  "ascii_replace_once [0x61, 0x62, 0x63] [(0x61, 0x41), (0x62, 0x42)] = [0x41, 0x42, 0x63]"
  by code_simp

section \<open>The claims\<close>

text \<open>
  Claim C1.  With \<open>is_identity = false\<close>, \<open>replace_and_remove\<close> leaves in the buffer
  the mapped bytes \<open>lookup_table[b]\<close> of the original bytes \<open>b\<close>, in order, without
  those that are the sentinel, for every buffer and every table; the length of the
  result is the number of bytes kept.
\<close>
theorem replace_and_remove_filter_map:
  "replace_and_remove buf lookup_table False =
     filter (\<lambda>c. c \<noteq> REMOVAL_SENTINEL) (map (\<lambda>b. lookup_table ! unat b) buf)
   \<and> length (replace_and_remove buf lookup_table False) =
     length (filter (\<lambda>b. lookup_table ! unat b \<noteq> REMOVAL_SENTINEL) buf)"
  by (simp add: replace_and_remove_scan filter_map comp_def)

theorem replace_and_remove_filter_map_witness:
  "replace_and_remove [0x61, 0x31, 0x62, 0x32, 0x63, 0x33]
     (fst (create_table_checked [(0x31, None), (0x32, Some 0x21)])) False =
     [0x61, 0x62, 0x21, 0x63, 0x33]"
  using replace_and_remove_filter_map[of "[0x61, 0x31, 0x62, 0x32, 0x63, 0x33]"
      "fst (create_table_checked [(0x31, None), (0x32, Some 0x21)])"]
  by (simp add: create_table_checked_nth unique_keys_def REMOVAL_SENTINEL_def)

text \<open>
  Claim C2.  For the empty rule set \<open>create_table_checked\<close> returns the identity table
  (256 entries, every byte mapped to itself) with the flag true.  For a non-empty rule
  set the flag is false, and (the keys being unique) the entry of a byte with a
  replacement rule is the replacement, the entry of a byte with a removal rule is the
  sentinel, and every byte without a rule keeps its identity entry.
\<close>
theorem create_table_checked_contract:
  "create_table_checked [] = (prepare_identity_table, True)
   \<and> length prepare_identity_table = 256
   \<and> (\<forall>b. prepare_identity_table ! unat b = b)
   \<and> (rules \<noteq> [] \<longrightarrow> snd (create_table_checked rules) = False)
   \<and> (rules \<noteq> [] \<and> unique_keys rules \<longrightarrow>
        length (fst (create_table_checked rules)) = 256
      \<and> (\<forall>b v. (b, Some v) \<in> set rules \<longrightarrow> fst (create_table_checked rules) ! unat b = v)
      \<and> (\<forall>b. (b, None) \<in> set rules \<longrightarrow>
             fst (create_table_checked rules) ! unat b = REMOVAL_SENTINEL)
      \<and> (\<forall>b. b \<notin> fst ` set rules \<longrightarrow> fst (create_table_checked rules) ! unat b = b))"
proof -
  have a: "create_table_checked [] = (prepare_identity_table, True)"
    by (simp add: create_table_checked_def)
  have b: "\<forall>b. prepare_identity_table ! unat b = b"
    by (simp add: prepare_identity_table_nth)
  have c: "rules \<noteq> [] \<longrightarrow> snd (create_table_checked rules) = False"
    by (simp add: create_table_checked_def)
  have d: "\<forall>b v. (b, Some v) \<in> set rules \<longrightarrow> fst (create_table_checked rules) ! unat b = v"
    if "rules \<noteq> []" "unique_keys rules"
    using that apply_rules_nth_in[of rules _ "Some _" prepare_identity_table]
    by (simp add: create_table_checked_def length_prepare_identity_table)
  have e: "\<forall>b. (b, None) \<in> set rules \<longrightarrow>
      fst (create_table_checked rules) ! unat b = REMOVAL_SENTINEL"
    if "rules \<noteq> []" "unique_keys rules"
    using that apply_rules_nth_in[of rules _ None prepare_identity_table]
    by (simp add: create_table_checked_def length_prepare_identity_table)
  have f: "\<forall>b. b \<notin> fst ` set rules \<longrightarrow> fst (create_table_checked rules) ! unat b = b"
    by (simp add: create_table_checked_def apply_rules_nth_notin
        length_prepare_identity_table prepare_identity_table_nth)
  show ?thesis
    using a b c d e f create_table_checked_length[of rules] length_prepare_identity_table
    by blast
qed

theorem create_table_checked_contract_witness:
  "snd (create_table_checked [(0x31, None), (0x32, Some 0x21)]) = False
   \<and> fst (create_table_checked [(0x31, None), (0x32, Some 0x21)]) ! unat (0x31 :: byte)
       = REMOVAL_SENTINEL
   \<and> fst (create_table_checked [(0x31, None), (0x32, Some 0x21)]) ! unat (0x32 :: byte) = 0x21
   \<and> fst (create_table_checked [(0x31, None), (0x32, Some 0x21)]) ! unat (0x33 :: byte) = 0x33"
proof -
  let ?rules = "[(0x31, None), (0x32, Some 0x21)] :: CharModMap"
  have h: "?rules \<noteq> [] \<and> unique_keys ?rules"
    by (simp add: unique_keys_def)
  have m: "(0x31, None) \<in> set ?rules" "(0x32, Some 0x21) \<in> set ?rules"
    "0x33 \<notin> fst ` set ?rules"
    by simp_all
  show ?thesis
    using create_table_checked_contract[of ?rules] h m by blast
qed

text \<open>
  Claim C4.  When a rule replaces \<open>b\<close> by the sentinel byte, the table entry of \<open>b\<close> is
  the removal marker, and the one-shot function and the reusable editor drop every
  occurrence of \<open>b\<close>: the result is the result for the buffer without its \<open>b\<close>s, it
  holds no \<open>0x00\<close> byte, and it is shorter than the input by at least the number of
  \<open>b\<close>s.
\<close>
theorem sentinel_replacement_drops:
  assumes "unique_keys rules" and "(b, Some REMOVAL_SENTINEL) \<in> set rules"
  shows "fst (create_table_checked rules) ! unat b = REMOVAL_SENTINEL
   \<and> ascii_char_replace_remove_once buf rules =
       ascii_char_replace_remove_once (filter (\<lambda>c. c \<noteq> b) buf) rules
   \<and> editor_apply (new_ReusableASCIICharEditor rules) buf =
       editor_apply (new_ReusableASCIICharEditor rules) (filter (\<lambda>c. c \<noteq> b) buf)
   \<and> REMOVAL_SENTINEL \<notin> set (ascii_char_replace_remove_once buf rules)
   \<and> REMOVAL_SENTINEL \<notin> set (editor_apply (new_ReusableASCIICharEditor rules) buf)
   \<and> length (ascii_char_replace_remove_once buf rules) + count_list buf b \<le> length buf"
proof -
  let ?T = "\<lambda>c. fst (create_table_checked rules) ! unat c"
  have ne: "rules \<noteq> []" using assms(2) by auto
  have t: "?T b = REMOVAL_SENTINEL"
    using assms ne apply_rules_nth_in[of rules b "Some REMOVAL_SENTINEL" prepare_identity_table]
    by (simp add: create_table_checked_def length_prepare_identity_table)
  have eq: "ascii_char_replace_remove_once buf rules =
       ascii_char_replace_remove_once (filter (\<lambda>c. c \<noteq> b) buf) rules"
    using filter_map_skip[of ?T b REMOVAL_SENTINEL buf, OF t] by (simp add: once_scan[OF ne])
  have no: "REMOVAL_SENTINEL \<notin> set (ascii_char_replace_remove_once buf rules)"
    by (simp add: once_scan[OF ne])
  have len: "length (ascii_char_replace_remove_once buf rules) + count_list buf b \<le> length buf"
    using filter_map_count[of ?T b REMOVAL_SENTINEL buf, OF t] by (simp add: once_scan[OF ne])
  show ?thesis using t eq no len by (simp add: editor_apply_once)
qed

theorem sentinel_replacement_drops_witness:
  "ascii_char_replace_remove_once [0x61, 0x62, 0x61, 0x63] [(0x61, Some 0), (0x62, Some 0x42)]
     = [0x42, 0x63]"
proof -
  let ?rules = "[(0x61, Some 0), (0x62, Some 0x42)] :: CharModMap"
  have u: "unique_keys ?rules" by (simp add: unique_keys_def)
  have m: "(0x61, Some REMOVAL_SENTINEL) \<in> set ?rules" by (simp add: REMOVAL_SENTINEL_def)
  have "ascii_char_replace_remove_once [0x61, 0x62, 0x61, 0x63] ?rules
      = ascii_char_replace_remove_once (filter (\<lambda>c. c \<noteq> 0x61) [0x61, 0x62, 0x61, 0x63]) ?rules"
    using sentinel_replacement_drops[OF u m, of "[0x61, 0x62, 0x61, 0x63]"] by blast
  also have "\<dots> = ascii_char_replace_remove_once [0x62, 0x63] ?rules" by simp
  also have "\<dots> = [0x42, 0x63]"
    using u by (simp add: once_scan create_table_checked_nth REMOVAL_SENTINEL_def)
  finally show ?thesis .
qed

text \<open>
  Claim C5.  For a non-empty rule set with no rule for the byte \<open>0x00\<close>, the entry of
  \<open>0x00\<close> is still its identity value, which is the sentinel; so the one-shot function
  and the reusable editor remove every \<open>0x00\<close> byte of the input: the result holds none,
  and it is the result for the buffer without its \<open>0x00\<close> bytes.
\<close>
theorem implicit_nul_removal:
  assumes "rules \<noteq> []" and "0 \<notin> fst ` set rules"
  shows "fst (create_table_checked rules) ! unat (0 :: byte) = REMOVAL_SENTINEL
   \<and> 0 \<notin> set (ascii_char_replace_remove_once buf rules)
   \<and> 0 \<notin> set (editor_apply (new_ReusableASCIICharEditor rules) buf)
   \<and> ascii_char_replace_remove_once buf rules =
       ascii_char_replace_remove_once (filter (\<lambda>c. c \<noteq> 0) buf) rules
   \<and> editor_apply (new_ReusableASCIICharEditor rules) buf =
       editor_apply (new_ReusableASCIICharEditor rules) (filter (\<lambda>c. c \<noteq> 0) buf)"
proof -
  let ?T = "\<lambda>c. fst (create_table_checked rules) ! unat c"
  have t: "?T 0 = REMOVAL_SENTINEL"
    using assms apply_rules_nth_notin[of 0 rules prepare_identity_table]
      prepare_identity_table_nth[of 0]
    by (simp add: create_table_checked_def length_prepare_identity_table REMOVAL_SENTINEL_def)
  have eq: "ascii_char_replace_remove_once buf rules =
       ascii_char_replace_remove_once (filter (\<lambda>c. c \<noteq> 0) buf) rules"
    using filter_map_skip[of ?T 0 REMOVAL_SENTINEL buf, OF t] by (simp add: once_scan[OF assms(1)])
  have no: "0 \<notin> set (ascii_char_replace_remove_once buf rules)"
    by (simp add: once_scan[OF assms(1)] REMOVAL_SENTINEL_def)
  show ?thesis using t eq no by (simp add: editor_apply_once)
qed

theorem implicit_nul_removal_witness:
  "ascii_char_replace_remove_once [0x61, 0, 0x2D, 0x62, 0] [(0x2D, None)] = [0x61, 0x62]"
proof -
  let ?rules = "[(0x2D, None)] :: CharModMap"
  have ne: "?rules \<noteq> []" and k: "0 \<notin> fst ` set ?rules" by simp_all
  have "ascii_char_replace_remove_once [0x61, 0, 0x2D, 0x62, 0] ?rules
      = ascii_char_replace_remove_once (filter (\<lambda>c. c \<noteq> 0) [0x61, 0, 0x2D, 0x62, 0]) ?rules"
    using implicit_nul_removal[OF ne k, of "[0x61, 0, 0x2D, 0x62, 0]"] by blast
  also have "\<dots> = ascii_char_replace_remove_once [0x61, 0x2D, 0x62] ?rules" by simp
  also have "\<dots> = [0x61, 0x62]"
    by (simp add: once_scan create_table_checked_nth unique_keys_def REMOVAL_SENTINEL_def)
  finally show ?thesis .
qed

text \<open>
  Claim C3.  The trimmable bytes of \<open>trim_all\<close> are space, tab, newline, carriage
  return, form feed, vertical tab and the backtick.  For every buffer, \<open>trim_all\<close>
  computes \<open>trim_spec\<close>: the leading and the trailing trimmable bytes are deleted and
  every maximal run of trimmable bytes left is replaced by one space.  A buffer of
  trimmable bytes only becomes empty; a non-empty result neither starts nor ends with a
  trimmable byte; every trimmable byte of the result is a single space between two
  non-trimmable bytes; the non-trimmable bytes are those of the input, in order.  Written
  out on a buffer cut into its runs and words: the leading and the trailing run vanish
  and each interior run, whatever its bytes and its length, becomes one space.
\<close>

theorem trim_all_contract:
  "(IS_TRIMMABLE c \<longleftrightarrow> c \<in> {0x20, 0x09, 0x0A, 0x0D, 0x0C, 0x0B, 0x60})
   \<and> trim_all buf = trim_spec buf
   \<and> ((\<forall>c\<in>set buf. IS_TRIMMABLE c) \<longrightarrow> trim_all buf = [])
   \<and> (trim_all buf \<noteq> [] \<longrightarrow>
        \<not> IS_TRIMMABLE (hd (trim_all buf)) \<and> \<not> IS_TRIMMABLE (last (trim_all buf)))
   \<and> single_spaced (trim_all buf)
   \<and> filter (\<lambda>c. \<not> IS_TRIMMABLE c) (trim_all buf) = filter (\<lambda>c. \<not> IS_TRIMMABLE c) buf
   \<and> ((\<forall>c\<in>set lead. IS_TRIMMABLE c) \<and> (\<forall>c\<in>set trail. IS_TRIMMABLE c) \<and> is_word w0
        \<and> (\<forall>(s, w)\<in>set pairs. is_run s \<and> is_word w) \<longrightarrow>
        trim_all (lead @ w0 @ join_runs pairs @ trail) = w0 @ join_spaces pairs)"
proof -
  have a: "IS_TRIMMABLE c \<longleftrightarrow> c \<in> {0x20, 0x09, 0x0A, 0x0D, 0x0C, 0x0B, 0x60}"
    by (simp only: IS_TRIMMABLE_iff trimmable_def trimmable_set_def)
  have b: "(\<forall>c\<in>set buf. trimmable c) \<longrightarrow> trim_spec buf = []"
    using trim_spec_all_trimmable by blast
  have c: "trim_spec buf \<noteq> [] \<longrightarrow>
      \<not> trimmable (hd (trim_spec buf)) \<and> \<not> trimmable (last (trim_spec buf))"
    using trim_spec_shape[of buf] by blast
  have d: "filter (\<lambda>c. \<not> trimmable c) (trim_spec buf) = filter (\<lambda>c. \<not> trimmable c) buf"
    by (simp add: trim_spec_def filter_collapse_runs filter_strip_ends)
  have e: "(\<forall>c\<in>set lead. trimmable c) \<and> (\<forall>c\<in>set trail. trimmable c) \<and> is_word w0
        \<and> (\<forall>(s, w)\<in>set pairs. is_run s \<and> is_word w) \<longrightarrow>
        trim_spec (lead @ w0 @ join_runs pairs @ trail) = w0 @ join_spaces pairs"
    using trim_spec_runs by blast
  show ?thesis
    unfolding trim_all_refines IS_TRIMMABLE_eq
    using a[unfolded IS_TRIMMABLE_iff] b c d e single_spaced_trim_spec[of buf] by blast
qed

theorem trim_all_contract_witness:
  "trim_all [0x09, 0x09, 0x09] = []
   \<and> trim_all [0x20, 0x60, 0x61, 0x09, 0x62, 0x63, 0x0A, 0x0D, 0x64, 0x0C, 0x0B] =
       [0x61, 0x20, 0x62, 0x63, 0x20, 0x64]
   \<and> \<not> IS_TRIMMABLE (hd (trim_all [0x20, 0x61, 0x20]))
   \<and> \<not> IS_TRIMMABLE (last (trim_all [0x20, 0x61, 0x20]))"
proof -
  have t: "\<forall>c\<in>set [0x09, 0x09, 0x09]. IS_TRIMMABLE c"
    by (simp add: IS_TRIMMABLE_iff trimmable_def trimmable_set_def)
  have 1: "trim_all [0x09, 0x09, 0x09] = []"
    using trim_all_contract[of _ "[0x09, 0x09, 0x09]"] t by blast
  let ?pairs = "[([0x09], [0x62, 0x63]), ([0x0A, 0x0D], [0x64])]
    :: (text_buffer \<times> text_buffer) list"
  have h: "(\<forall>c\<in>set [0x20, 0x60]. IS_TRIMMABLE c) \<and> (\<forall>c\<in>set [0x0C, 0x0B]. IS_TRIMMABLE c)
        \<and> is_word [0x61] \<and> (\<forall>(s, w)\<in>set ?pairs. is_run s \<and> is_word w)"
    by (simp add: IS_TRIMMABLE_iff trimmable_def trimmable_set_def is_word_def is_run_def)
  have "trim_all ([0x20, 0x60] @ [0x61] @ join_runs ?pairs @ [0x0C, 0x0B])
      = [0x61] @ join_spaces ?pairs"
    using trim_all_contract[of _ _ "[0x20, 0x60]" "[0x0C, 0x0B]" "[0x61]" ?pairs] h by blast
  then have 2: "trim_all [0x20, 0x60, 0x61, 0x09, 0x62, 0x63, 0x0A, 0x0D, 0x64, 0x0C, 0x0B] =
       [0x61, 0x20, 0x62, 0x63, 0x20, 0x64]"
    by (simp add: join_runs_def join_spaces_def)
  have h3: "(\<forall>c\<in>set [0x20]. IS_TRIMMABLE c) \<and> (\<forall>c\<in>set [0x20]. IS_TRIMMABLE c)
        \<and> is_word [0x61] \<and> (\<forall>(s, w)\<in>set []. is_run s \<and> is_word w)"
    by (simp add: IS_TRIMMABLE_iff trimmable_def trimmable_set_def is_word_def)
  have "trim_all ([0x20] @ [0x61] @ join_runs [] @ [0x20]) = [0x61] @ join_spaces []"
    using trim_all_contract[of _ _ "[0x20]" "[0x20]" "[0x61]" "[]"] h3 by blast
  then have ne: "trim_all [0x20, 0x61, 0x20] \<noteq> []"
    by (simp add: join_runs_def join_spaces_def)
  have 3: "\<not> IS_TRIMMABLE (hd (trim_all [0x20, 0x61, 0x20]))
      \<and> \<not> IS_TRIMMABLE (last (trim_all [0x20, 0x61, 0x20]))"
    using trim_all_contract[of _ "[0x20, 0x61, 0x20]"] ne by blast
  show ?thesis using 1 2 3 by blast
qed

text \<open>
  Claim C6.  Trimming is idempotent: \<open>trim_all\<close> applied to a buffer it has trimmed
  leaves it as it is, for every buffer.
\<close>
theorem trim_all_idempotent: "trim_all (trim_all buf) = trim_all buf"
  by (simp only: trim_all_refines trim_spec_idem)

theorem trim_all_idempotent_witness:
  "trim_all (trim_all [0x20, 0x61, 0x09, 0x60, 0x62, 0x0A]) = [0x61, 0x20, 0x62]"
proof -
  have "trim_all [0x20, 0x61, 0x09, 0x60, 0x62, 0x0A] = [0x61, 0x20, 0x62]"
    by code_simp
  then show ?thesis
    using trim_all_idempotent[of "[0x20, 0x61, 0x09, 0x60, 0x62, 0x0A]"] by simp
qed

text \<open>
  Claim C7.  The replace-or-remove transform (the scan, the one-shot function and the
  reusable editor) and \<open>trim_all\<close> never lengthen the buffer; the pure-replacement
  transform (the scan, the one-shot function and the reusable replacer) keeps its length.
\<close>
theorem length_invariant:
  "length (replace_and_remove buf lookup_table is_identity) \<le> length buf
   \<and> length (ascii_char_replace_remove_once buf rules) \<le> length buf
   \<and> length (editor_apply (new_ReusableASCIICharEditor rules) buf) \<le> length buf
   \<and> length (trim_all buf) \<le> length buf
   \<and> length (replace_chars buf lookup_table) = length buf
   \<and> length (ascii_replace_once buf replacements) = length buf
   \<and> length (replacer_apply (new_ReusableCharReplacer replacements) buf) = length buf"
  by (simp add: length_replace_and_remove length_once editor_apply_once replacer_apply_once
      trim_all_refines length_trim_spec replace_chars_map replace_once_map)

theorem length_invariant_witness:
  "length (ascii_char_replace_remove_once [0x61, 0x2D, 0x62] [(0x2D, None)]) \<le> 3
   \<and> length (trim_all [0x20, 0x61, 0x09, 0x62, 0x20]) \<le> 5
   \<and> length (ascii_replace_once [0x61, 0x62, 0x63] [(0x61, 0x41), (0x62, 0)]) = 3"
proof -
  note a = length_invariant[where buf = "[0x61, 0x2D, 0x62]" and rules = "[(0x2D, None)]"
      and lookup_table = "[]" and is_identity = False and replacements = "[]"]
  note b = length_invariant[where buf = "[0x20, 0x61, 0x09, 0x62, 0x20]" and rules = "[]"
      and lookup_table = "[]" and is_identity = False and replacements = "[]"]
  note c = length_invariant[where buf = "[0x61, 0x62, 0x63]" and rules = "[]"
      and lookup_table = "[]" and is_identity = False
      and replacements = "[(0x61, 0x41), (0x62, 0)]"]
  have "length (ascii_char_replace_remove_once [0x61, 0x2D, 0x62] [(0x2D, None)])
      \<le> length [0x61 :: byte, 0x2D, 0x62]"
    using a by blast
  moreover have "length (trim_all [0x20, 0x61, 0x09, 0x62, 0x20])
      \<le> length [0x20 :: byte, 0x61, 0x09, 0x62, 0x20]"
    using b by blast
  moreover have "length (ascii_replace_once [0x61, 0x62, 0x63] [(0x61, 0x41), (0x62, 0)])
      = length [0x61 :: byte, 0x62, 0x63]"
    using c by blast
  ultimately show ?thesis by simp
qed

text \<open>
  Claim C8.  After the pure-replacement transform the byte at each position \<open>i\<close> is the
  table entry of the input byte at \<open>i\<close>, and the length is unchanged; the table is the
  identity table with the entries of the map written over it (the keys being unique);
  a byte that the map sends to \<open>0x00\<close> is written as \<open>0x00\<close>, not removed.
\<close>
theorem pure_replacement_positional:
  "length (ascii_replace_once buf replacements) = length buf
   \<and> (\<forall>i<length buf.
        ascii_replace_once buf replacements ! i =
          create_replacement_table replacements ! unat (buf ! i)
      \<and> replacer_apply (new_ReusableCharReplacer replacements) buf ! i =
          create_replacement_table replacements ! unat (buf ! i)
      \<and> replace_chars buf lookup_table ! i = lookup_table ! unat (buf ! i))
   \<and> length (create_replacement_table replacements) = 256
   \<and> (unique_keys replacements \<longrightarrow>
        (\<forall>b. create_replacement_table replacements ! unat b =
               (case map_of replacements b of None \<Rightarrow> b | Some v \<Rightarrow> v)))
   \<and> (unique_keys replacements \<longrightarrow>
        (\<forall>i<length buf. (buf ! i, 0) \<in> set replacements \<longrightarrow>
           ascii_replace_once buf replacements ! i = 0))"
proof -
  have tbl: "create_replacement_table replacements ! unat b =
               (case map_of replacements b of None \<Rightarrow> b | Some v \<Rightarrow> v)"
    if u: "unique_keys replacements" for b
    using u by (rule create_replacement_table_nth)
  have zero: "ascii_replace_once buf replacements ! i = 0"
    if "unique_keys replacements" "i < length buf" "(buf ! i, 0) \<in> set replacements" for i
    using that
    by (simp add: replace_once_map create_replacement_table_def apply_replacements_nth_in
        length_prepare_identity_table)
  show ?thesis
    using tbl zero
    by (simp add: replace_once_map replacer_apply_once replace_chars_map
        create_replacement_table_length)
qed

theorem pure_replacement_positional_witness:
  "ascii_replace_once [0x61, 0x62, 0x63] [(0x61, 0x41), (0x62, 0)] ! 0 = 0x41
   \<and> ascii_replace_once [0x61, 0x62, 0x63] [(0x61, 0x41), (0x62, 0)] ! 1 = 0
   \<and> ascii_replace_once [0x61, 0x62, 0x63] [(0x61, 0x41), (0x62, 0)] ! 2 = 0x63
   \<and> length (ascii_replace_once [0x61, 0x62, 0x63] [(0x61, 0x41), (0x62, 0)]) = 3"
proof -
  let ?m = "[(0x61, 0x41), (0x62, 0)] :: ReplacementMap"
  let ?b = "[0x61, 0x62, 0x63] :: text_buffer"
  have u: "unique_keys ?m" by (simp add: unique_keys_def)
  note c = pure_replacement_positional[of ?b ?m]
  have p: "\<forall>i<length ?b. ascii_replace_once ?b ?m ! i =
      (case map_of ?m (?b ! i) of None \<Rightarrow> ?b ! i | Some v \<Rightarrow> v)"
    using c u by simp
  have 0: "ascii_replace_once ?b ?m ! 0 = 0x41" using p by simp
  have "ascii_replace_once ?b ?m ! 1 = (case map_of ?m (?b ! 1) of None \<Rightarrow> ?b ! 1 | Some v \<Rightarrow> v)"
    using p by simp
  then have 1: "ascii_replace_once ?b ?m ! 1 = 0" by simp
  have "ascii_replace_once ?b ?m ! 2 = (case map_of ?m (?b ! 2) of None \<Rightarrow> ?b ! 2 | Some v \<Rightarrow> v)"
    using p by simp
  then have 2: "ascii_replace_once ?b ?m ! 2 = 0x63" by simp
  show ?thesis using 0 1 2 c by simp
qed

text \<open>
  Claim C9.  The replace-or-remove transform with an empty rule map (or with the identity
  flag set), the pure-replacement transform with an empty map, and every transform on an
  empty buffer return the buffer as it was.
\<close>
theorem identity_fast_path:
  "ascii_char_replace_remove_once buf [] = buf
   \<and> editor_apply (new_ReusableASCIICharEditor []) buf = buf
   \<and> replace_and_remove buf lookup_table True = buf
   \<and> ascii_replace_once buf [] = buf
   \<and> replacer_apply (new_ReusableCharReplacer []) buf = buf
   \<and> ascii_char_replace_remove_once [] rules = []
   \<and> editor_apply (new_ReusableASCIICharEditor rules) [] = []
   \<and> replace_and_remove [] lookup_table is_identity = []
   \<and> ascii_replace_once [] replacements = []
   \<and> replacer_apply (new_ReusableCharReplacer replacements) [] = []
   \<and> replace_chars [] lookup_table = []
   \<and> trim_all [] = []"
proof -
  have a: "replace_and_remove [] T i = []" for T i
    by (simp add: replace_and_remove_def)
  have b: "ascii_char_replace_remove_once [] rules = []"
    by (simp add: ascii_char_replace_remove_once_def a split: prod.split)
  have c: "ascii_replace_once [] replacements = []"
    by (simp add: ascii_replace_once_def replace_chars_def)
  show ?thesis
    using a b c
    by (simp add: once_empty_rules editor_apply_once replacer_apply_once
        replace_and_remove_def ascii_replace_once_def replace_chars_def trim_all_def)
qed

theorem identity_fast_path_witness:
  "ascii_char_replace_remove_once [0x68, 0x69, 0x00, 0x20] [] = [0x68, 0x69, 0x00, 0x20]
   \<and> ascii_replace_once [0x68, 0x69, 0x00, 0x20] [] = [0x68, 0x69, 0x00, 0x20]
   \<and> ascii_char_replace_remove_once [] [(0x68, None)] = []
   \<and> ascii_replace_once [] [(0x68, 0x48)] = []"
  using identity_fast_path[where buf = "[0x68, 0x69, 0x00, 0x20]" and rules = "[(0x68, None)]"
      and replacements = "[(0x68, 0x48)]" and lookup_table = "[]" and is_identity = False]
  by blast

text \<open>
  Claim C10.  \<open>ReusableASCIICharEditor(rules).apply\<close> gives the buffer that
  \<open>ascii_char_replace_remove_once\<close> gives with the same rules, and
  \<open>ReusableCharReplacer(replacements).apply\<close> the buffer that \<open>ascii_replace_once\<close>
  gives; the object is not changed by \<open>apply\<close>, so this holds for each buffer of any
  sequence of buffers it is applied to.
\<close>
theorem reusable_equals_once:
  "editor_apply (new_ReusableASCIICharEditor rules) buf = ascii_char_replace_remove_once buf rules
   \<and> replacer_apply (new_ReusableCharReplacer replacements) buf =
       ascii_replace_once buf replacements
   \<and> map (editor_apply (new_ReusableASCIICharEditor rules)) bufs =
       map (\<lambda>t. ascii_char_replace_remove_once t rules) bufs
   \<and> map (replacer_apply (new_ReusableCharReplacer replacements)) bufs =
       map (\<lambda>t. ascii_replace_once t replacements) bufs"
proof -
  have a: "editor_apply (new_ReusableASCIICharEditor rules) t = ascii_char_replace_remove_once t rules"
    for t
    by (simp add: editor_apply_def new_ReusableASCIICharEditor_def
        ascii_char_replace_remove_once_def Let_def split: prod.split)
  have b: "replacer_apply (new_ReusableCharReplacer replacements) t =
       ascii_replace_once t replacements" for t
    by (simp add: replacer_apply_def new_ReusableCharReplacer_def ascii_replace_once_def)
  show ?thesis using a b by simp
qed

theorem reusable_equals_once_witness:
  "map (editor_apply (new_ReusableASCIICharEditor [(0x2D, None)]))
       [[0x61, 0x2D, 0x62], [], [0x2D, 0x2D]] =
     map (\<lambda>t. ascii_char_replace_remove_once t [(0x2D, None)])
       [[0x61, 0x2D, 0x62], [], [0x2D, 0x2D]]
   \<and> replacer_apply (new_ReusableCharReplacer [(0x61, 0x41)]) [0x61, 0x62] =
       ascii_replace_once [0x61, 0x62] [(0x61, 0x41)]"
  using reusable_equals_once[where rules = "[(0x2D, None)]" and buf = "[]"
      and replacements = "[]" and bufs = "[[0x61, 0x2D, 0x62], [], [0x2D, 0x2D]]"]
    reusable_equals_once[where rules = "[]" and buf = "[0x61, 0x62]"
      and replacements = "[(0x61, 0x41)]" and bufs = "[]"]
  by blast

end
